theory Spec2Isabelle
  imports Main "HOL-Library.Multiset"
begin

section \<open>The dashboard variable list editor (VariablesEditView)\<close>

text \<open>
  The class \<^verbatim>\<open>VariablesEditView\<close> of \<^verbatim>\<open>fields.tsx\<close> (second document of the file)
  edits the ordered list of template variables of a dashboard. Its handlers
  (\<^verbatim>\<open>onDelete\<close>, \<^verbatim>\<open>onDuplicated\<close>, \<^verbatim>\<open>onOrderChanged\<close>, \<^verbatim>\<open>onEdit\<close>,
  \<^verbatim>\<open>onTypeChange\<close>, \<^verbatim>\<open>onGoBack\<close>, \<^verbatim>\<open>onDiscardChanges\<close>) are the operations
  delete, duplicate, reorder, beginEdit, changeType, goBack and discard of the
  specification. Every handler returns nothing and works by \<^verbatim>\<open>setState\<close>; here each
  is a function from the state before the call to the state after it.
\<close>

subsection \<open>JavaScript array primitives\<close>

text \<open>
  Indices are JavaScript numbers; the model takes them as integers (NaN and
  fractional numbers are not modelled). \<^verbatim>\<open>arr[i]\<close> is \<^verbatim>\<open>undefined\<close> outside
  \<open>0 \<le> i < length\<close>; that is \<open>None\<close> here.
\<close>

definition index_at :: "'a list \<Rightarrow> int \<Rightarrow> 'a option" where
  "index_at xs i = (if 0 \<le> i \<and> i < int (length xs) then Some (xs ! nat i) else None)"

text \<open>\<^verbatim>\<open>Array.prototype.findIndex\<close>: the first index whose element satisfies the
  predicate, or \<open>-1\<close>.\<close>

fun findIndex :: "('a \<Rightarrow> bool) \<Rightarrow> 'a list \<Rightarrow> int" where
  "findIndex P [] = - 1"
| "findIndex P (x # xs) =
     (if P x then 0
      else (let i = findIndex P xs in if i = - 1 then - 1 else i + 1))"

text \<open>\<^verbatim>\<open>slice\<close> and \<^verbatim>\<open>splice\<close> turn a relative index into an absolute one: a negative
  index counts from the end, and the result is clamped to \<open>[0, length]\<close>.\<close>

definition clampIndex :: "int \<Rightarrow> nat \<Rightarrow> nat" where
  "clampIndex i len = (if i < 0 then nat (max (int len + i) 0) else min (nat i) len)"

definition slice :: "'a list \<Rightarrow> int \<Rightarrow> int \<Rightarrow> 'a list" where
  "slice xs start fin =
     (let k = clampIndex start (length xs);
          final = clampIndex fin (length xs)
      in take (final - k) (drop k xs))"

text \<open>\<^verbatim>\<open>slice(start)\<close> with the end left out runs to the end of the array.\<close>

definition slice_from :: "'a list \<Rightarrow> int \<Rightarrow> 'a list" where
  "slice_from xs start = drop (clampIndex start (length xs)) xs"

text \<open>\<^verbatim>\<open>splice(start, deleteCount, ...items)\<close> mutates the array and returns the removed
  elements; the model returns the pair (removed elements, array afterwards).\<close>

definition splice :: "'a list \<Rightarrow> int \<Rightarrow> int \<Rightarrow> 'a list \<Rightarrow> 'a list \<times> 'a list" where
  "splice xs start deleteCount items =
     (let k = clampIndex start (length xs);
          d = min (nat (max deleteCount 0)) (length xs - k)
      in (take d (drop k xs), take k xs @ items @ drop (k + d) xs))"

subsection \<open>Numbers in template literals\<close>

text \<open>\<^verbatim>\<open>${copyNumber}\<close> prints a non-negative integer in decimal, without leading
  zeros. The counter is a natural number here (the float limit \<open>2^53\<close> is out of
  reach: the loop of \<^verbatim>\<open>onDuplicated\<close> advances by one per variable of the list).\<close>

definition digit :: "nat \<Rightarrow> char" where
  "digit d = ''0123456789'' ! d"

fun string_of_nat :: "nat \<Rightarrow> string" where
  "string_of_nat n =
     (if n < 10 then [digit n] else string_of_nat (n div 10) @ [digit (n mod 10)])"

declare string_of_nat.simps [simp del]

text \<open>The decimal numeral determines the number: \<open>string_of_nat\<close> is injective.\<close>

lemma cases10:
  "d < 10 \<Longrightarrow> d = 0 \<or> d = 1 \<or> d = 2 \<or> d = 3 \<or> d = 4 \<or> d = 5 \<or> d = 6 \<or> d = 7 \<or> d = 8 \<or> d = (9::nat)"
  by arith

text \<open>The position of a character in the digit string, which inverts \<open>digit\<close>.\<close>

definition digit_val :: "char \<Rightarrow> nat" where
  "digit_val c = length (takeWhile (\<lambda>d. d \<noteq> c) ''0123456789'')"

lemma digit_val_digit:
  assumes "d < 10" shows "digit_val (digit d) = d"
  using cases10 [OF assms] by (elim disjE) (simp_all add: digit_def digit_val_def)

lemma digit_inj:
  assumes "d < 10" and "e < 10" and eq: "digit d = digit e"
  shows "d = e"
proof -
  have "d = digit_val (digit d)" using assms(1) by (rule digit_val_digit [symmetric])
  also have "\<dots> = digit_val (digit e)" by (simp only: eq)
  also have "\<dots> = e" using assms(2) by (rule digit_val_digit)
  finally show ?thesis .
qed

lemma string_of_nat_nonempty: "string_of_nat n \<noteq> []"
  by (subst string_of_nat.simps) simp

lemma string_of_nat_small: "n < 10 \<Longrightarrow> string_of_nat n = [digit n]"
  by (subst string_of_nat.simps) simp

lemma string_of_nat_large:
  "\<not> n < 10 \<Longrightarrow> string_of_nat n = string_of_nat (n div 10) @ [digit (n mod 10)]"
  by (subst string_of_nat.simps) simp

lemma string_of_nat_inj: "string_of_nat m = string_of_nat k \<Longrightarrow> m = k"
proof (induction m arbitrary: k rule: string_of_nat.induct)
  case (1 m)
  note eq = "1.prems"
  show ?case
  proof (cases "m < 10")
    case True
    note m = string_of_nat_small [OF True]
    show ?thesis
    proof (cases "k < 10")
      case k: True
      from eq have "digit m = digit k"
        unfolding m string_of_nat_small [OF k] by simp
      from digit_inj [OF True k this] show ?thesis .
    next
      case k: False
      from eq have "[digit m] = string_of_nat (k div 10) @ [digit (k mod 10)]"
        unfolding m string_of_nat_large [OF k] .
      then have "string_of_nat (k div 10) = []" by simp
      then show ?thesis using string_of_nat_nonempty [of "k div 10"] by simp
    qed
  next
    case False
    note m = string_of_nat_large [OF False]
    show ?thesis
    proof (cases "k < 10")
      case k: True
      from eq have "string_of_nat (m div 10) @ [digit (m mod 10)] = [digit k]"
        unfolding m string_of_nat_small [OF k] .
      then have "string_of_nat (m div 10) = []" by simp
      then show ?thesis using string_of_nat_nonempty [of "m div 10"] by simp
    next
      case k: False
      from eq
      have "string_of_nat (m div 10) @ [digit (m mod 10)] = string_of_nat (k div 10) @ [digit (k mod 10)]"
        unfolding m string_of_nat_large [OF k] .
      then have a: "string_of_nat (m div 10) = string_of_nat (k div 10)"
        and b: "digit (m mod 10) = digit (k mod 10)" by simp_all
      from "1.IH" [OF False a] have d: "m div 10 = k div 10" .
      have r: "m mod 10 = k mod 10" by (rule digit_inj [OF _ _ b]) simp_all
      have "m = 10 * (m div 10) + m mod 10" by simp
      also have "\<dots> = 10 * (k div 10) + k mod 10" by (simp only: d r)
      also have "\<dots> = k" by simp
      finally show ?thesis .
    qed
  qed
qed

subsection \<open>Variables and the state of the editor\<close>

text \<open>
  Modelled from the spec: the variable kinds. \<^verbatim>\<open>EditableVariableType\<close>,
  \<^verbatim>\<open>isEditableVariableType\<close> and \<^verbatim>\<open>getVariableScene\<close> are imported by the source from
  \<^verbatim>\<open>./variables/utils\<close>, which is not among the source files. The spec names the
  kinds query, custom and textbox and the structurally distinct ad-hoc filter kind,
  all of which \<^verbatim>\<open>changeType\<close> accepts; \<^verbatim>\<open>discard\<close> restores only a snapshot whose type
  is an editable kind, so the type tag of a variable state may also be a kind that is
  not editable. The source's types say the same: \<^verbatim>\<open>onTypeChange\<close> and
  \<^verbatim>\<open>getVariableScene\<close> take an \<^verbatim>\<open>EditableVariableType\<close>, and
  \<^verbatim>\<open>isEditableVariableType\<close> narrows the \<^verbatim>\<open>type\<close> of a state to it.
\<close>

datatype EditableVariableType = Query | Custom | Textbox | Adhoc

datatype VariableType = Editable EditableVariableType | NonEditable

text \<open>Modelled from the spec: the type guard \<^verbatim>\<open>isEditableVariableType\<close>, absent from
  the sources; it holds of the editable kinds.\<close>

fun isEditableVariableType :: "VariableType \<Rightarrow> bool" where
  "isEditableVariableType (Editable t) = True"
| "isEditableVariableType NonEditable = False"

text \<open>
  \<^verbatim>\<open>SceneVariableState\<close>: the fields the editor reads are \<^verbatim>\<open>name\<close>, \<^verbatim>\<open>label\<close>
  (optional) and \<^verbatim>\<open>type\<close>; everything else is the kind-specific configuration, opaque
  to the editor, kept as one field of any type. A variable of the list is a scene object
  holding such a state; the model identifies the variable with its state, so equality of
  variables is deep equality.
\<close>

record 'c SceneVariableState =
  name :: string
  label :: "string option"
  type :: VariableType
  config :: 'c

text \<open>The second argument of \<^verbatim>\<open>getVariableScene\<close> is a partial state: \<^verbatim>\<open>{ name, label }\<close>
  in \<^verbatim>\<open>onTypeChange\<close>, a whole captured state in \<^verbatim>\<open>onDiscardChanges\<close>.\<close>

record 'c InitialState =
  init_name :: string
  init_label :: "string option"
  init_config :: "'c option"

definition name_and_label :: "'c SceneVariableState \<Rightarrow> 'c InitialState" where
  "name_and_label v = \<lparr>init_name = name v, init_label = label v, init_config = None\<rparr>"

definition whole_state :: "'c SceneVariableState \<Rightarrow> 'c InitialState" where
  "whole_state v = \<lparr>init_name = name v, init_label = label v, init_config = Some (config v)\<rparr>"

text \<open>What \<^verbatim>\<open>getVariableScene\<close> returns: a \<^verbatim>\<open>SceneVariable\<close> or an \<^verbatim>\<open>AdHocFilterSet\<close>
  (the source tells them apart with \<^verbatim>\<open>instanceof\<close> only).\<close>

datatype 'c SceneObject = SceneVariable "'c SceneVariableState" | AdHocFilterSet

text \<open>
  Modelled from the spec: \<^verbatim>\<open>getVariableScene\<close>, absent from the sources. It constructs
  a brand-new variable of the given kind from the fields of the partial state, every
  field left out being the default of that kind; the ad-hoc filter kind yields the
  structurally distinct filter set instead. The defaults of each kind come from the host
  (spec, section 6) and are the parameter \<open>defaults\<close>.
\<close>

definition getVariableScene ::
  "(EditableVariableType \<Rightarrow> 'c) \<Rightarrow> EditableVariableType \<Rightarrow> 'c InitialState \<Rightarrow> 'c SceneObject" where
  "getVariableScene defaults t initialState =
     (if t = Adhoc then AdHocFilterSet
      else SceneVariable
        \<lparr>name = init_name initialState,
         label = init_label initialState,
         type = Editable t,
         config = (case init_config initialState of None \<Rightarrow> defaults t | Some c \<Rightarrow> c)\<rparr>)"

text \<open>
  The state the handlers work on: the \<^verbatim>\<open>variables\<close> array of the dashboard's variable
  set, the view's own \<^verbatim>\<open>editIndex\<close> and \<^verbatim>\<open>originalVariableState\<close> (both may be
  \<^verbatim>\<open>undefined\<close>), and what \<^verbatim>\<open>console.error\<close> has been given so far.
\<close>

record 'c VariablesEditView =
  variables :: "'c SceneVariableState list"
  editIndex :: "int option"
  originalVariableState :: "'c SceneVariableState option"
  console :: "string list"

definition console_error :: "string \<Rightarrow> 'c VariablesEditView \<Rightarrow> 'c VariablesEditView" where
  "console_error msg s = s\<lparr>console := console s @ [msg]\<rparr>"

subsection \<open>The handlers\<close>

definition getVariableIndex :: "string \<Rightarrow> 'c VariablesEditView \<Rightarrow> int" where
  "getVariableIndex identifier s = findIndex (\<lambda>variable. name variable = identifier) (variables s)"

definition replaceEditVariable :: "'c SceneObject \<Rightarrow> 'c VariablesEditView \<Rightarrow> 'c VariablesEditView" where
  "replaceEditVariable newVariable s =
     (let variableIndex = (case editIndex s of None \<Rightarrow> - 1 | Some i \<Rightarrow> i);
          vars = variables s
      in case index_at vars variableIndex of
           None \<Rightarrow> console_error ''Variable not found'' s
         | Some variable \<Rightarrow>
             (case newVariable of
                AdHocFilterSet \<Rightarrow> s
              | SceneVariable nv \<Rightarrow>
                  s\<lparr>variables :=
                      slice vars 0 variableIndex @ [nv] @ slice_from vars (variableIndex + 1)\<rparr>))"

definition onDelete :: "string \<Rightarrow> 'c VariablesEditView \<Rightarrow> 'c VariablesEditView" where
  "onDelete identifier s =
     (let variableIndex = getVariableIndex identifier s;
          vars = variables s
      in if variableIndex = - 1 then console_error ''Variable not found'' s
         else s\<lparr>variables := slice vars 0 variableIndex @ slice_from vars (variableIndex + 1)\<rparr>)"

text \<open>
  The loop of \<^verbatim>\<open>onDuplicated\<close> that looks for an unused name. Its variables are
  \<^verbatim>\<open>copyNumber\<close> and \<^verbatim>\<open>newName\<close>; \<^verbatim>\<open>variables.some(...)\<close> is \<open>list_ex\<close>.
  The function is total: the termination proof below shows that the loop always ends,
  since the numbered names are pairwise different and the list is finite.
\<close>

function newNameLoop :: "'c SceneVariableState list \<Rightarrow> string \<Rightarrow> nat \<Rightarrow> string \<Rightarrow> string" where
  "newNameLoop vars orig copyNumber newName =
     (if list_ex (\<lambda>v. name v = newName) vars
      then newNameLoop vars orig (copyNumber + 1)
             (''copy_of_'' @ orig @ ''_'' @ string_of_nat (copyNumber + 1))
      else newName)"
  by pat_completeness auto

lemma finite_taken: "finite {k. ''copy_of_'' @ orig @ ''_'' @ string_of_nat k \<in> name ` set vars}"
proof -
  have "inj (\<lambda>k. ''copy_of_'' @ orig @ ''_'' @ string_of_nat k)"
    by (rule injI) (drule same_append_eq [THEN iffD1], drule same_append_eq [THEN iffD1], drule same_append_eq [THEN iffD1], erule string_of_nat_inj)
  then have "finite ((\<lambda>k. ''copy_of_'' @ orig @ ''_'' @ string_of_nat k) -` (name ` set vars))"
    by (intro finite_vimageI) simp_all
  then show ?thesis by (simp add: vimage_def)
qed

definition taken_after :: "'c SceneVariableState list \<Rightarrow> string \<Rightarrow> nat \<Rightarrow> nat set" where
  "taken_after vars orig c = {k. c < k \<and> ''copy_of_'' @ orig @ ''_'' @ string_of_nat k \<in> name ` set vars}"

lemma finite_taken_after: "finite (taken_after vars orig c)"
proof (rule finite_subset)
  show "taken_after vars orig c \<subseteq> {k. ''copy_of_'' @ orig @ ''_'' @ string_of_nat k \<in> name ` set vars}"
    unfolding taken_after_def by blast
  show "finite {k. ''copy_of_'' @ orig @ ''_'' @ string_of_nat k \<in> name ` set vars}"
    by (rule finite_taken)
qed

lemma taken_after_step:
  "card (taken_after vars orig (Suc c)) +
     (if ''copy_of_'' @ orig @ ''_'' @ string_of_nat (Suc c) \<in> name ` set vars then 1 else 0)
   = card (taken_after vars orig c)"
proof (cases "''copy_of_'' @ orig @ ''_'' @ string_of_nat (Suc c) \<in> name ` set vars")
  case True
  have "taken_after vars orig c = insert (Suc c) (taken_after vars orig (Suc c))"
  proof (rule set_eqI)
    fix k
    show "k \<in> taken_after vars orig c \<longleftrightarrow> k \<in> insert (Suc c) (taken_after vars orig (Suc c))"
    proof (cases "k = Suc c")
      case k: True
      with True show ?thesis by (simp add: taken_after_def)
    next
      case k: False
      then have "Suc c < k \<longleftrightarrow> c < k" by arith
      with k show ?thesis by (simp add: taken_after_def)
    qed
  qed
  moreover have "Suc c \<notin> taken_after vars orig (Suc c)" by (simp add: taken_after_def)
  ultimately show ?thesis using True finite_taken_after [of vars orig "Suc c"] by simp
next
  case False
  have "taken_after vars orig (Suc c) = taken_after vars orig c"
  proof (rule set_eqI)
    fix k
    show "k \<in> taken_after vars orig (Suc c) \<longleftrightarrow> k \<in> taken_after vars orig c"
    proof (cases "k = Suc c")
      case k: True
      with False show ?thesis by (simp add: taken_after_def)
    next
      case k: False
      then have "Suc c < k \<longleftrightarrow> c < k" by arith
      then show ?thesis by (simp add: taken_after_def)
    qed
  qed
  with False show ?thesis by (simp only: if_False add_0_right)
qed

lemma newNameLoop_decreases:
  assumes "list_ex (\<lambda>v. name v = newName) vars"
  shows "card (taken_after vars orig (Suc c)) +
           (if ''copy_of_'' @ orig @ ''_'' @ string_of_nat (Suc c) \<in> name ` set vars then 1 else 0)
         < card (taken_after vars orig c) + (if newName \<in> name ` set vars then 1 else 0)"
proof -
  from assms have "newName \<in> name ` set vars" by (auto simp: list_ex_iff)
  then show ?thesis using taken_after_step [of vars orig c] by simp
qed

termination newNameLoop
  apply (relation "measure (\<lambda>(vars, orig, c, nm).
          card (taken_after vars orig c) + (if nm \<in> name ` set vars then 1 else 0))")
   apply simp
  apply (simp only: in_measure prod.case Suc_eq_plus1 [symmetric])
  apply (erule newNameLoop_decreases)
  done

declare newNameLoop.simps [simp del]

definition onDuplicated :: "string \<Rightarrow> 'c VariablesEditView \<Rightarrow> 'c VariablesEditView" where
  "onDuplicated identifier s =
     (let variableIndex = getVariableIndex identifier s;
          vars = variables s
      in if variableIndex = - 1 then console_error ''Variable not found'' s
         else (case index_at vars variableIndex of
                 None \<Rightarrow> s \<comment> \<open>not reached: \<^verbatim>\<open>findIndex\<close> returned an index of the array\<close>
               | Some originalVariable \<Rightarrow>
                   (let newName = newNameLoop vars (name originalVariable) 0
                                    (''copy_of_'' @ name originalVariable);
                        newVariable = originalVariable\<lparr>name := newName\<rparr>
                    in s\<lparr>variables :=
                          slice vars 0 (variableIndex + 1) @ [newVariable]
                            @ slice_from vars (variableIndex + 1)\<rparr>)))"

text \<open>In \<^verbatim>\<open>onOrderChanged\<close> the test \<^verbatim>\<open>!this.getVariableSet()\<close> never holds (the variable
  set has been read from on the line before), so it has no branch here.\<close>

definition onOrderChanged :: "int \<Rightarrow> int \<Rightarrow> 'c VariablesEditView \<Rightarrow> 'c VariablesEditView" where
  "onOrderChanged fromIndex toIndex s =
     (let vars = variables s
      in if fromIndex < 0 \<or> fromIndex \<ge> int (length vars)
            \<or> toIndex < 0 \<or> toIndex \<ge> int (length vars)
         then console_error ''Invalid index'' s
         else (let (movedItem, updatedVariables) = splice vars fromIndex 1 []
               in case index_at movedItem 0 of
                    None \<Rightarrow> s \<comment> \<open>not reached: \<^verbatim>\<open>fromIndex\<close> is an index of the array\<close>
                  | Some moved \<Rightarrow>
                      s\<lparr>variables := snd (splice updatedVariables toIndex 0 [moved])\<rparr>))"

definition onEdit :: "string \<Rightarrow> 'c VariablesEditView \<Rightarrow> 'c VariablesEditView" where
  "onEdit identifier s =
     (let variableIndex = getVariableIndex identifier s
      in if variableIndex = - 1 then console_error ''Variable not found'' s
         else (case index_at (variables s) variableIndex of
                 None \<Rightarrow> s \<comment> \<open>not reached, as in \<^verbatim>\<open>onDuplicated\<close>\<close>
               | Some variable \<Rightarrow>
                   s\<lparr>editIndex := Some variableIndex,
                     originalVariableState := Some variable\<rparr>))"

definition onTypeChange ::
  "(EditableVariableType \<Rightarrow> 'c) \<Rightarrow> EditableVariableType \<Rightarrow> 'c VariablesEditView \<Rightarrow> 'c VariablesEditView" where
  "onTypeChange defaults t s =
     (let variableIndex = (case editIndex s of None \<Rightarrow> - 1 | Some i \<Rightarrow> i);
          vars = variables s
      in case index_at vars variableIndex of
           None \<Rightarrow> console_error ''Variable not found'' s
         | Some variable \<Rightarrow>
             replaceEditVariable (getVariableScene defaults t (name_and_label variable)) s)"

definition onGoBack :: "'c VariablesEditView \<Rightarrow> 'c VariablesEditView" where
  "onGoBack s = s\<lparr>editIndex := None\<rparr>"

text \<open>In \<^verbatim>\<open>onDiscardChanges\<close> the guard \<^verbatim>\<open>isEditableVariableType\<close> narrows the type of the
  snapshot; the \<open>case\<close> under it reads the narrowed value.\<close>

definition onDiscardChanges ::
  "(EditableVariableType \<Rightarrow> 'c) \<Rightarrow> 'c VariablesEditView \<Rightarrow> 'c VariablesEditView" where
  "onDiscardChanges defaults s =
     (let vars = variables s
      in case (editIndex s, originalVariableState s) of
           (Some editIdx, Some original) \<Rightarrow>
             (case index_at vars editIdx of
                None \<Rightarrow> s
              | Some variable \<Rightarrow>
                  (let s' =
                     (if isEditableVariableType (type original)
                      then (case type original of
                              NonEditable \<Rightarrow> s
                            | Editable t \<Rightarrow>
                                (case getVariableScene defaults t (whole_state original) of
                                   AdHocFilterSet \<Rightarrow> s
                                 | SceneVariable newVariable \<Rightarrow>
                                     s\<lparr>variables :=
                                         slice vars 0 editIdx @ [newVariable]
                                           @ slice_from vars (editIdx + 1)\<rparr>))
                      else s)
                   in s'\<lparr>editIndex := None, originalVariableState := None\<rparr>))
         | _ \<Rightarrow> s)"

text \<open>The rule of the spec for the name of a clone: \<^verbatim>\<open>copy_of_<name>\<close> for the count
  0, \<^verbatim>\<open>copy_of_<name>_<k>\<close> for a count \<open>k\<close> from 1 on. It is what the properties of
  \<^verbatim>\<open>onDuplicated\<close> are stated with; the handler itself is the loop above.\<close>

definition copyName :: "string \<Rightarrow> nat \<Rightarrow> string" where
  "copyName orig k =
     (if k = 0 then ''copy_of_'' @ orig
      else ''copy_of_'' @ orig @ ''_'' @ string_of_nat k)"

subsection \<open>Example states\<close>

text \<open>The collection of the spec's example scenario, with numbers for the
  configurations, and no edit session.\<close>

definition var :: "string \<Rightarrow> VariableType \<Rightarrow> nat \<Rightarrow> nat SceneVariableState" where
  "var n t c = \<lparr>name = n, label = None, type = t, config = c\<rparr>"

definition view :: "nat SceneVariableState list \<Rightarrow> nat VariablesEditView" where
  "view vs = \<lparr>variables = vs, editIndex = None, originalVariableState = None, console = []\<rparr>"

definition example_view :: "nat VariablesEditView" where
  "example_view = view [var ''query0'' (Editable Query) 7, var ''custom1'' (Editable Custom) 8]"

text \<open>Defaults for the configuration of every kind, as a host would supply them.\<close>

definition example_defaults :: "EditableVariableType \<Rightarrow> nat" where
  "example_defaults t = 0"

section \<open>Auxiliary facts\<close>

subsection \<open>Array primitives where the handlers use them\<close>

lemma findIndex_ge: "- 1 \<le> findIndex P xs"
  by (induction xs) (auto simp: Let_def)

lemma findIndex_absent: "findIndex P xs = - 1 \<longleftrightarrow> (\<forall>x \<in> set xs. \<not> P x)"
proof (induction xs)
  case Nil
  show ?case by simp
next
  case (Cons x xs)
  have "findIndex P xs + 1 \<noteq> - 1" using findIndex_ge [of P xs] by arith
  with Cons show ?case by (simp add: Let_def)
qed

lemma findIndex_found:
  assumes "findIndex P xs \<noteq> - 1"
  shows "0 \<le> findIndex P xs \<and> nat (findIndex P xs) < length xs \<and> P (xs ! nat (findIndex P xs))
         \<and> (\<forall>j < nat (findIndex P xs). \<not> P (xs ! j))"
  using assms
proof (induction xs)
  case Nil
  then show ?case by simp
next
  case (Cons x xs)
  show ?case
  proof (cases "P x")
    case True
    then show ?thesis by simp
  next
    case False
    with Cons.prems have ne: "findIndex P xs \<noteq> - 1" by (simp add: Let_def split: if_splits)
    from Cons.IH [OF ne] have ih: "0 \<le> findIndex P xs" "nat (findIndex P xs) < length xs"
      "P (xs ! nat (findIndex P xs))" "\<forall>j < nat (findIndex P xs). \<not> P (xs ! j)" by simp_all
    from False ne have eq: "findIndex P (x # xs) = findIndex P xs + 1" by (simp add: Let_def)
    from ih(1) have n: "nat (findIndex P xs + 1) = Suc (nat (findIndex P xs))" by simp
    show ?thesis unfolding eq n using ih False by (auto simp: nth_Cons split: nat.split)
  qed
qed

lemma slice_prefix: "0 \<le> i \<Longrightarrow> slice xs 0 i = take (nat i) xs"
  by (simp add: slice_def clampIndex_def Let_def min_def)

lemma slice_from_suffix: "0 \<le> i \<Longrightarrow> slice_from xs i = drop (nat i) xs"
  by (simp add: slice_from_def clampIndex_def min_def)

lemma index_at_nat: "i < length xs \<Longrightarrow> index_at xs (int i) = Some (xs ! i)"
  by (simp add: index_at_def)

lemma filter_distinct_nth:
  "distinct (map f xs) \<Longrightarrow> i < length xs \<Longrightarrow>
   filter (\<lambda>v. f v \<noteq> f (xs ! i)) xs = take i xs @ drop (Suc i) xs"
proof (induction xs arbitrary: i)
  case Nil
  then show ?case by simp
next
  case (Cons x xs)
  show ?case
  proof (cases i)
    case 0
    from Cons.prems have "\<forall>v \<in> set xs. f v \<noteq> f x" by (auto simp: image_iff)
    then have "filter (\<lambda>v. f v \<noteq> f x) xs = xs" by (simp add: filter_id_conv)
    with 0 show ?thesis by simp
  next
    case (Suc k)
    with Cons.prems have k: "k < length xs" and d: "distinct (map f xs)" by simp_all
    from Cons.prems Suc k have "f x \<noteq> f (xs ! k)" by (auto simp: image_iff)
    with Cons.IH [OF d k] Suc show ?thesis by simp
  qed
qed

lemma filter_first_match:
  assumes "i < length xs" and "P (xs ! i)" and "\<forall>j < i. \<not> P (xs ! j)"
  shows "filter P (take i xs) = []"
    and "filter P xs = xs ! i # filter P (drop (Suc i) xs)"
proof -
  show e: "filter P (take i xs) = []"
    using assms(1,3) by (auto simp: filter_empty_conv in_set_conv_nth)
  have "xs = take i xs @ xs ! i # drop (Suc i) xs"
    using assms(1) by (rule id_take_nth_drop)
  then have "filter P xs = filter P (take i xs @ xs ! i # drop (Suc i) xs)" by simp
  also have "\<dots> = xs ! i # filter P (drop (Suc i) xs)" using e assms(2) by simp
  finally show "filter P xs = xs ! i # filter P (drop (Suc i) xs)" .
qed

lemma getVariableIndex_present:
  assumes "n \<in> name ` set (variables s)"
  shows "getVariableIndex n s \<noteq> - 1" and "0 \<le> getVariableIndex n s"
    and "nat (getVariableIndex n s) < length (variables s)"
    and "name (variables s ! nat (getVariableIndex n s)) = n"
    and "\<forall>j < nat (getVariableIndex n s). name (variables s ! j) \<noteq> n"
proof -
  from assms show ne: "getVariableIndex n s \<noteq> - 1"
    by (auto simp: getVariableIndex_def findIndex_absent)
  from findIndex_found [OF ne [unfolded getVariableIndex_def]]
  show "0 \<le> getVariableIndex n s"
    and "nat (getVariableIndex n s) < length (variables s)"
    and "name (variables s ! nat (getVariableIndex n s)) = n"
    and "\<forall>j < nat (getVariableIndex n s). name (variables s ! j) \<noteq> n"
    by (simp_all add: getVariableIndex_def)
qed

lemma delete_variables:
  assumes "n \<in> name ` set (variables s)"
  shows "variables (onDelete n s) =
           take (nat (getVariableIndex n s)) (variables s)
             @ drop (Suc (nat (getVariableIndex n s))) (variables s)"
proof -
  note p = getVariableIndex_present [OF assms]
  from p(2) have "nat (getVariableIndex n s + 1) = Suc (nat (getVariableIndex n s))" by simp
  with p(1,2) show ?thesis
    by (simp add: onDelete_def Let_def slice_prefix slice_from_suffix)
qed

lemma failing_delete: "n \<notin> name ` set (variables s) \<Longrightarrow> getVariableIndex n s = - 1"
  by (auto simp: getVariableIndex_def findIndex_absent)

lemma take_drop_at_length:
  "length xs = i \<Longrightarrow> take i (xs @ ys) = xs \<and> drop i (xs @ ys) = ys"
  by auto

lemma splice_remove:
  assumes "i < length xs"
  shows "splice xs (int i) 1 [] = ([xs ! i], take i xs @ drop (Suc i) xs)"
proof -
  from assms have c: "clampIndex (int i) (length xs) = i" by (simp add: clampIndex_def)
  from assms have d: "min (Suc 0) (length xs - i) = Suc 0" by simp
  from assms have "take (Suc 0) (drop i xs) = [xs ! i]"
    by (simp add: take_Suc hd_drop_conv_nth)
  then show ?thesis by (simp add: splice_def c d Let_def)
qed

lemma splice_insert:
  assumes "j \<le> length xs"
  shows "snd (splice xs (int j) 0 [x]) = take j xs @ [x] @ drop j xs"
proof -
  from assms have c: "clampIndex (int j) (length xs) = j" by (simp add: clampIndex_def)
  show ?thesis by (simp add: splice_def c Let_def)
qed

lemma reorder_variables:
  assumes "i < length (variables s)" and "j < length (variables s)"
  shows "variables (onOrderChanged (int i) (int j) s) =
           take j (take i (variables s) @ drop (Suc i) (variables s)) @ [variables s ! i]
             @ drop j (take i (variables s) @ drop (Suc i) (variables s))"
proof -
  let ?rest = "take i (variables s) @ drop (Suc i) (variables s)"
  from assms have "j \<le> length ?rest" by simp
  note ins = splice_insert [OF this]
  show ?thesis
    using assms
    by (simp add: onOrderChanged_def Let_def splice_remove ins index_at_def
        del: take_append drop_append)
qed

subsection \<open>The loop that picks the name of a clone\<close>

lemma some_name_iff: "list_ex (\<lambda>v. name v = nm) vars \<longleftrightarrow> nm \<in> name ` set vars"
  by (induction vars) auto

lemma newNameLoop_fresh: "newNameLoop vars orig c nm \<notin> name ` set vars"
proof (induction vars orig c nm rule: newNameLoop.induct)
  case (1 vars orig copyNumber newName)
  show ?case
  proof (cases "list_ex (\<lambda>v. name v = newName) vars")
    case True
    with "1.IH" show ?thesis by (subst newNameLoop.simps) simp
  next
    case False
    then show ?thesis by (subst newNameLoop.simps) (simp add: some_name_iff)
  qed
qed

lemma newNameLoop_numbered:
  "nm \<in> name ` set vars \<Longrightarrow>
   \<exists>k > c. newNameLoop vars orig c nm = copyName orig k \<and>
          (\<forall>j. c < j \<and> j < k \<longrightarrow> copyName orig j \<in> name ` set vars)"
proof (induction vars orig c nm rule: newNameLoop.induct)
  case (1 vars orig c nm)
  let ?next = "''copy_of_'' @ orig @ ''_'' @ string_of_nat (c + 1)"
  from "1.prems" have ex: "list_ex (\<lambda>v. name v = nm) vars" by (simp only: some_name_iff)
  then have step: "newNameLoop vars orig c nm = newNameLoop vars orig (c + 1) ?next"
    by (subst newNameLoop.simps) simp
  have nx: "?next = copyName orig (c + 1)" by (simp add: copyName_def)
  show ?case
  proof (cases "?next \<in> name ` set vars")
    case True
    from "1.IH" [OF ex True] obtain k where k: "c + 1 < k"
      "newNameLoop vars orig (c + 1) ?next = copyName orig k"
      "\<forall>j. c + 1 < j \<and> j < k \<longrightarrow> copyName orig j \<in> name ` set vars" by blast
    have "\<forall>j. c < j \<and> j < k \<longrightarrow> copyName orig j \<in> name ` set vars"
    proof (intro allI impI)
      fix j assume j: "c < j \<and> j < k"
      show "copyName orig j \<in> name ` set vars"
      proof (cases "j = c + 1")
        case True
        with \<open>?next \<in> name ` set vars\<close> nx show ?thesis by simp
      next
        case False
        with j have "c + 1 < j \<and> j < k" by arith
        with k(3) show ?thesis by blast
      qed
    qed
    moreover from k(1) have "c < k" by arith
    ultimately show ?thesis using k(2) step by auto
  next
    case False
    then have "\<not> list_ex (\<lambda>v. name v = ?next) vars" by (simp only: some_name_iff not_False_eq_True)
    then have "newNameLoop vars orig (c + 1) ?next = ?next" by (subst newNameLoop.simps) simp
    with step nx have "newNameLoop vars orig c nm = copyName orig (c + 1)" by simp
    moreover have "\<forall>j. c < j \<and> j < c + 1 \<longrightarrow> copyName orig j \<in> name ` set vars" by arith
    ultimately show ?thesis by (intro exI [of _ "c + 1"]) simp
  qed
qed

lemma newName_least:
  "newNameLoop vars orig 0 (''copy_of_'' @ orig) =
     copyName orig (LEAST k. copyName orig k \<notin> name ` set vars)"
proof (cases "''copy_of_'' @ orig \<in> name ` set vars")
  case False
  then have "\<not> list_ex (\<lambda>v. name v = ''copy_of_'' @ orig) vars" by (simp only: some_name_iff not_False_eq_True)
  then have r: "newNameLoop vars orig 0 (''copy_of_'' @ orig) = copyName orig 0"
    by (subst newNameLoop.simps) (simp add: copyName_def)
  from False have "copyName orig 0 \<notin> name ` set vars" by (simp add: copyName_def)
  then have "(LEAST k. copyName orig k \<notin> name ` set vars) = 0" by (intro Least_equality) simp_all
  with r show ?thesis by simp
next
  case True
  from newNameLoop_numbered [OF True, of 0 orig] obtain k where k: "0 < k"
    "newNameLoop vars orig 0 (''copy_of_'' @ orig) = copyName orig k"
    "\<forall>j. 0 < j \<and> j < k \<longrightarrow> copyName orig j \<in> name ` set vars" by blast
  from newNameLoop_fresh [of vars orig 0 "''copy_of_'' @ orig"] k(2)
  have fresh: "copyName orig k \<notin> name ` set vars" by simp
  have zero: "copyName orig 0 \<in> name ` set vars" using True by (simp add: copyName_def)
  have "(LEAST k. copyName orig k \<notin> name ` set vars) = k"
  proof (rule Least_equality)
    show "copyName orig k \<notin> name ` set vars" by (rule fresh)
  next
    fix y assume y: "copyName orig y \<notin> name ` set vars"
    show "k \<le> y"
    proof (rule ccontr)
      assume "\<not> k \<le> y"
      then have "y < k" by simp
      with y zero k(3) show False by (cases "y = 0") auto
    qed
  qed
  with k(2) show ?thesis by simp
qed

lemma duplicate_variables:
  assumes "n \<in> name ` set (variables s)"
  shows "variables (onDuplicated n s) =
           take (Suc (nat (getVariableIndex n s))) (variables s)
             @ [(variables s ! nat (getVariableIndex n s))
                  \<lparr>name := newNameLoop (variables s) n 0 (''copy_of_'' @ n)\<rparr>]
             @ drop (Suc (nat (getVariableIndex n s))) (variables s)"
proof -
  note p = getVariableIndex_present [OF assms]
  from p(2) have i: "nat (getVariableIndex n s + 1) = Suc (nat (getVariableIndex n s))" by simp
  from p(2,3) have at: "index_at (variables s) (getVariableIndex n s)
                          = Some (variables s ! nat (getVariableIndex n s))"
    by (simp add: index_at_def)
  from p(2) have pre: "slice (variables s) 0 (getVariableIndex n s + 1)
                         = take (Suc (nat (getVariableIndex n s))) (variables s)"
    using slice_prefix [of "getVariableIndex n s + 1" "variables s"] i by simp
  from p(2) have suf: "slice_from (variables s) (getVariableIndex n s + 1)
                         = drop (Suc (nat (getVariableIndex n s))) (variables s)"
    using slice_from_suffix [of "getVariableIndex n s + 1" "variables s"] i by simp
  show ?thesis
    using p(1) by (simp add: onDuplicated_def Let_def at pre suf p(4))
qed

subsection \<open>Replacing the variable under edit\<close>

lemma replace_at:
  assumes "i < length xs"
  shows "slice xs 0 (int i) @ v # slice_from xs (int i + 1) = xs[i := v]"
proof -
  have "nat (int i + 1) = Suc i" by simp
  with slice_prefix [of "int i" xs] slice_from_suffix [of "int i + 1" xs]
  have "slice xs 0 (int i) @ v # slice_from xs (int i + 1) = take i xs @ v # drop (Suc i) xs"
    by simp
  with assms show ?thesis by (simp add: upd_conv_take_nth_drop)
qed

lemma whole_state_restores:
  "t \<noteq> Adhoc \<Longrightarrow> type v = Editable t \<Longrightarrow>
   getVariableScene defaults t (whole_state v) = SceneVariable v"
  by (simp add: getVariableScene_def whole_state_def)

section \<open>Properties\<close>

subsection \<open>Delete\<close>

text \<open>
  Claim C1, as the code has it. For every collection and every name \<open>n\<close> present in it,
  \<open>delete(n)\<close> yields a collection that is one shorter: the first variable named \<open>n\<close>
  is removed and the remaining variables keep their order. The result has no variable
  named \<open>n\<close> exactly when \<open>n\<close> named a single variable of the collection; so it has
  none when the names of the collection are pairwise different, and the result is then
  the list of the variables not named \<open>n\<close>.
\<close>

theorem delete_removes_first:
  assumes "n \<in> name ` set (variables s)"
  shows "(let C = variables s; C' = variables (onDelete n s); i = nat (getVariableIndex n s)
          in length C' = length C - 1 \<and>
             i < length C \<and> name (C ! i) = n \<and> n \<notin> name ` set (take i C) \<and>
             C' = take i C @ drop (Suc i) C \<and>
             (n \<notin> name ` set C' \<longleftrightarrow> length (filter (\<lambda>v. name v = n) C) = 1) \<and>
             (distinct (map name C) \<longrightarrow>
                n \<notin> name ` set C' \<and> C' = filter (\<lambda>v. name v \<noteq> n) C))"
proof -
  let ?C = "variables s"
  let ?i = "nat (getVariableIndex n s)"
  let ?P = "\<lambda>v. name v = n"
  note p = getVariableIndex_present [OF assms]
  note v = delete_variables [OF assms]
  have l: "length (variables (onDelete n s)) = length ?C - 1"
    using p(3) by (simp add: v)
  from p(3,4,5) have pre: "filter ?P (take ?i ?C) = []"
    and whole: "filter ?P ?C = ?C ! ?i # filter ?P (drop (Suc ?i) ?C)"
    by (rule filter_first_match [where P = ?P])+
  from pre have first: "n \<notin> name ` set (take ?i ?C)"
    by (auto simp: filter_empty_conv)
  have "n \<notin> name ` set (variables (onDelete n s)) \<longleftrightarrow> filter ?P (variables (onDelete n s)) = []"
    by (auto simp: filter_empty_conv)
  also have "\<dots> \<longleftrightarrow> filter ?P (drop (Suc ?i) ?C) = []"
    unfolding v using pre by simp
  also have "\<dots> \<longleftrightarrow> length (filter ?P ?C) = 1"
    unfolding whole by simp
  finally have once: "n \<notin> name ` set (variables (onDelete n s)) \<longleftrightarrow> length (filter ?P ?C) = 1" .
  have d: "distinct (map name ?C) \<longrightarrow>
             n \<notin> name ` set (variables (onDelete n s)) \<and>
             variables (onDelete n s) = filter (\<lambda>v. name v \<noteq> n) ?C"
  proof
    assume dist: "distinct (map name ?C)"
    have f: "filter (\<lambda>v. name v \<noteq> n) ?C = take ?i ?C @ drop (Suc ?i) ?C"
      using filter_distinct_nth [OF dist p(3)] by (simp only: p(4))
    have e: "variables (onDelete n s) = filter (\<lambda>v. name v \<noteq> n) ?C"
      by (simp only: f v)
    have "n \<notin> name ` set (filter (\<lambda>v. name v \<noteq> n) ?C)" by auto
    with e show "n \<notin> name ` set (variables (onDelete n s)) \<and>
                 variables (onDelete n s) = filter (\<lambda>v. name v \<noteq> n) ?C"
      by (simp only: simp_thms)
  qed
  show ?thesis
    unfolding Let_def using l p(3,4) first v once d by blast
qed

theorem delete_removes_first_witness:
  "''query0'' \<in> name ` set (variables example_view) \<and>
   distinct (map name (variables example_view)) \<and>
   length (variables (onDelete ''query0'' example_view)) = 1 \<and>
   ''query0'' \<notin> name ` set (variables (onDelete ''query0'' example_view)) \<and>
   variables (onDelete ''query0'' example_view) = [var ''custom1'' (Editable Custom) 8]"
proof -
  have m: "''query0'' \<in> name ` set (variables example_view)"
    by (simp add: example_view_def view_def var_def)
  have d: "distinct (map name (variables example_view))"
    by (simp add: example_view_def view_def var_def)
  from delete_removes_first [OF m, unfolded Let_def] d
  have "length (variables (onDelete ''query0'' example_view)) = length (variables example_view) - 1"
    and "''query0'' \<notin> name ` set (variables (onDelete ''query0'' example_view))"
    and "variables (onDelete ''query0'' example_view)
           = filter (\<lambda>v. name v \<noteq> ''query0'') (variables example_view)"
    by blast+
  with m d show ?thesis by (simp add: example_view_def view_def var_def)
qed

text \<open>
  Stated for every collection, the absence of \<open>n\<close> fails: \<^verbatim>\<open>onDelete\<close> removes the one
  index that \<^verbatim>\<open>findIndex\<close> returns, and nothing in the handlers keeps names apart, so
  where two variables are named \<^verbatim>\<open>a\<close> the second one is still there after
  \<open>delete("a")\<close>.
\<close>

theorem delete_counterexample:
  "''a'' \<in> name ` set (variables (view [var ''a'' (Editable Query) 1,
      var ''b'' (Editable Query) 2, var ''a'' (Editable Custom) 3])) \<and>
   variables (onDelete ''a'' (view [var ''a'' (Editable Query) 1,
      var ''b'' (Editable Query) 2, var ''a'' (Editable Custom) 3]))
     = [var ''b'' (Editable Query) 2, var ''a'' (Editable Custom) 3] \<and>
   ''a'' \<in> name ` set (variables (onDelete ''a'' (view [var ''a'' (Editable Query) 1,
      var ''b'' (Editable Query) 2, var ''a'' (Editable Custom) 3])))"
  by (simp add: onDelete_def getVariableIndex_def slice_def slice_from_def clampIndex_def
      view_def var_def Let_def)

subsection \<open>Duplicate\<close>

text \<open>
  Claim C3. For every collection containing a variable named \<open>n\<close>, \<open>duplicate(n)\<close>
  yields a collection one longer: the variables up to and including the original (the
  first one named \<open>n\<close>, at index \<open>i\<close>) are as before, the new element stands at index
  \<open>i + 1\<close>, immediately after the original, and the variables after it are those that
  followed the original. The new element is the original with only its name replaced,
  and its name is the name of no variable of the collection before the call.
\<close>

theorem duplicate_present:
  assumes "n \<in> name ` set (variables s)"
  shows "(let C = variables s; C' = variables (onDuplicated n s); i = nat (getVariableIndex n s)
          in length C' = length C + 1 \<and>
             i < length C \<and> name (C ! i) = n \<and>
             take (Suc i) C' = take (Suc i) C \<and>
             drop (Suc (Suc i)) C' = drop (Suc i) C \<and>
             C' ! Suc i = (C ! i)\<lparr>name := name (C' ! Suc i)\<rparr> \<and>
             name (C' ! Suc i) \<notin> name ` set C)"
proof -
  let ?C = "variables s"
  let ?i = "nat (getVariableIndex n s)"
  let ?new = "newNameLoop ?C n 0 (''copy_of_'' @ n)"
  let ?clone = "(?C ! ?i)\<lparr>name := ?new\<rparr>"
  note p = getVariableIndex_present [OF assms]
  have v: "variables (onDuplicated n s) = take (Suc ?i) ?C @ [?clone] @ drop (Suc ?i) ?C"
    by (rule duplicate_variables [OF assms])
  from p(3) have l: "length (take (Suc ?i) ?C) = Suc ?i" by simp
  have len: "length (variables (onDuplicated n s)) = length ?C + 1"
    unfolding v using p(3) by simp
  from take_drop_at_length [OF l, of "[?clone] @ drop (Suc ?i) ?C"]
  have t: "take (Suc ?i) (variables (onDuplicated n s)) = take (Suc ?i) ?C"
    and d: "drop (Suc ?i) (variables (onDuplicated n s)) = [?clone] @ drop (Suc ?i) ?C"
    unfolding v by blast+
  have d2: "drop (Suc (Suc ?i)) (variables (onDuplicated n s)) = drop (Suc ?i) ?C"
    using d drop_drop [of 1 "Suc ?i" "variables (onDuplicated n s)"] by simp
  have nth: "variables (onDuplicated n s) ! Suc ?i = ?clone"
    unfolding v using l by (simp add: nth_append del: length_take)
  have fresh: "?new \<notin> name ` set ?C" by (rule newNameLoop_fresh)
  show ?thesis
    unfolding Let_def using len p(3,4) t d2 nth fresh by simp
qed

theorem duplicate_present_witness:
  "''query0'' \<in> name ` set (variables example_view) \<and>
   variables (onDuplicated ''query0'' example_view) =
     [var ''query0'' (Editable Query) 7, var ''copy_of_query0'' (Editable Query) 7,
      var ''custom1'' (Editable Custom) 8] \<and>
   (let C = variables example_view; C' = variables (onDuplicated ''query0'' example_view);
        i = nat (getVariableIndex ''query0'' example_view)
    in length C' = length C + 1 \<and> i < length C \<and> name (C ! i) = ''query0'' \<and>
       take (Suc i) C' = take (Suc i) C \<and> drop (Suc (Suc i)) C' = drop (Suc i) C \<and>
       C' ! Suc i = (C ! i)\<lparr>name := name (C' ! Suc i)\<rparr> \<and>
       name (C' ! Suc i) \<notin> name ` set C)"
proof -
  have m: "''query0'' \<in> name ` set (variables example_view)"
    by (simp add: example_view_def view_def var_def)
  have "variables (onDuplicated ''query0'' example_view) =
     [var ''query0'' (Editable Query) 7, var ''copy_of_query0'' (Editable Query) 7,
      var ''custom1'' (Editable Custom) 8]"
    by (simp add: onDuplicated_def getVariableIndex_def index_at_def newNameLoop.simps
        slice_def slice_from_def clampIndex_def example_view_def view_def var_def Let_def)
  with m duplicate_present [OF m] show ?thesis by simp
qed

text \<open>
  Claim C4, as the code has it. The name of the clone is \<^verbatim>\<open>copy_of_<name>\<close> followed by
  nothing for the count 0 and by \<^verbatim>\<open>_<k>\<close> for a count \<open>k\<close> from 1 on, for the least
  count whose name is unused in the collection. In particular, in a collection that has
  variables named \<^verbatim>\<open>foo\<close> and \<^verbatim>\<open>copy_of_foo\<close> and none named \<^verbatim>\<open>copy_of_foo_1\<close>,
  \<open>duplicate("foo")\<close> names the clone \<^verbatim>\<open>copy_of_foo_1\<close>.
\<close>

theorem duplicate_name_rule:
  "(n \<in> name ` set (variables s) \<longrightarrow>
      variables (onDuplicated n s) =
        take (Suc (nat (getVariableIndex n s))) (variables s)
          @ [(variables s ! nat (getVariableIndex n s))
               \<lparr>name := copyName n (LEAST k. copyName n k \<notin> name ` set (variables s))\<rparr>]
          @ drop (Suc (nat (getVariableIndex n s))) (variables s)) \<and>
   (''foo'' \<in> name ` set (variables s) \<and> ''copy_of_foo'' \<in> name ` set (variables s) \<and>
    ''copy_of_foo_1'' \<notin> name ` set (variables s) \<longrightarrow>
      variables (onDuplicated ''foo'' s) =
        take (Suc (nat (getVariableIndex ''foo'' s))) (variables s)
          @ [(variables s ! nat (getVariableIndex ''foo'' s))\<lparr>name := ''copy_of_foo_1''\<rparr>]
          @ drop (Suc (nat (getVariableIndex ''foo'' s))) (variables s))"
proof (intro conjI impI)
  assume "n \<in> name ` set (variables s)"
  from duplicate_variables [OF this] show "variables (onDuplicated n s) =
        take (Suc (nat (getVariableIndex n s))) (variables s)
          @ [(variables s ! nat (getVariableIndex n s))
               \<lparr>name := copyName n (LEAST k. copyName n k \<notin> name ` set (variables s))\<rparr>]
          @ drop (Suc (nat (getVariableIndex n s))) (variables s)"
    by (simp only: newName_least)
next
  let ?names = "name ` set (variables s)"
  assume a: "''foo'' \<in> ?names \<and> ''copy_of_foo'' \<in> ?names \<and> ''copy_of_foo_1'' \<notin> ?names"
  have one: "string_of_nat (Suc 0) = ''1''" using string_of_nat_small [of "Suc 0"] by (simp add: digit_def)
  have c0: "copyName ''foo'' 0 = ''copy_of_foo''" by (simp add: copyName_def)
  have c1: "copyName ''foo'' 1 = ''copy_of_foo_1''" by (simp add: copyName_def one)
  have "(LEAST k. copyName ''foo'' k \<notin> ?names) = 1"
  proof (rule Least_equality)
    from a c1 show "copyName ''foo'' 1 \<notin> ?names" by simp
  next
    fix y assume y: "copyName ''foo'' y \<notin> ?names"
    with a c0 have "y \<noteq> 0" by (intro notI) simp
    then show "1 \<le> y" by simp
  qed
  with c1 have "copyName ''foo'' (LEAST k. copyName ''foo'' k \<notin> ?names) = ''copy_of_foo_1''"
    by simp
  moreover from a have "''foo'' \<in> ?names" by simp
  from duplicate_variables [OF this]
  have "variables (onDuplicated ''foo'' s) =
        take (Suc (nat (getVariableIndex ''foo'' s))) (variables s)
          @ [(variables s ! nat (getVariableIndex ''foo'' s))
               \<lparr>name := copyName ''foo'' (LEAST k. copyName ''foo'' k \<notin> ?names)\<rparr>]
          @ drop (Suc (nat (getVariableIndex ''foo'' s))) (variables s)"
    by (simp only: newName_least)
  ultimately show "variables (onDuplicated ''foo'' s) =
        take (Suc (nat (getVariableIndex ''foo'' s))) (variables s)
          @ [(variables s ! nat (getVariableIndex ''foo'' s))\<lparr>name := ''copy_of_foo_1''\<rparr>]
          @ drop (Suc (nat (getVariableIndex ''foo'' s))) (variables s)"
    by (simp only:)
qed

theorem duplicate_name_rule_witness:
  "''foo'' \<in> name ` set (variables (view [var ''foo'' (Editable Query) 1, var ''copy_of_foo'' (Editable Query) 1])) \<and>
   ''copy_of_foo'' \<in> name ` set (variables (view [var ''foo'' (Editable Query) 1, var ''copy_of_foo'' (Editable Query) 1])) \<and>
   ''copy_of_foo_1'' \<notin> name ` set (variables (view [var ''foo'' (Editable Query) 1, var ''copy_of_foo'' (Editable Query) 1])) \<and>
   variables (onDuplicated ''foo'' (view [var ''foo'' (Editable Query) 1, var ''copy_of_foo'' (Editable Query) 1]))
     = [var ''foo'' (Editable Query) 1, var ''copy_of_foo_1'' (Editable Query) 1,
        var ''copy_of_foo'' (Editable Query) 1]"
proof -
  let ?V = "view [var ''foo'' (Editable Query) 1, var ''copy_of_foo'' (Editable Query) 1]"
  have m: "''foo'' \<in> name ` set (variables ?V) \<and> ''copy_of_foo'' \<in> name ` set (variables ?V) \<and>
           ''copy_of_foo_1'' \<notin> name ` set (variables ?V)"
    by (simp add: view_def var_def)
  from duplicate_name_rule [of "''foo''" ?V, THEN conjunct2, rule_format, OF m]
  have "variables (onDuplicated ''foo'' ?V) =
          [var ''foo'' (Editable Query) 1, var ''copy_of_foo_1'' (Editable Query) 1,
           var ''copy_of_foo'' (Editable Query) 1]"
    by (simp add: getVariableIndex_def view_def var_def)
  with m show ?thesis by (simp only: simp_thms)
qed

text \<open>
  The last sentence of the claim, taken for any collection that contains \<^verbatim>\<open>foo\<close> and
  \<^verbatim>\<open>copy_of_foo\<close>, fails where \<^verbatim>\<open>copy_of_foo_1\<close> is taken as well: the counter moves
  on and the clone is named \<^verbatim>\<open>copy_of_foo_2\<close>.
\<close>

theorem duplicate_name_counterexample:
  "''foo'' \<in> name ` set (variables (view [var ''foo'' (Editable Query) 1,
      var ''copy_of_foo'' (Editable Query) 1, var ''copy_of_foo_1'' (Editable Query) 1])) \<and>
   ''copy_of_foo'' \<in> name ` set (variables (view [var ''foo'' (Editable Query) 1,
      var ''copy_of_foo'' (Editable Query) 1, var ''copy_of_foo_1'' (Editable Query) 1])) \<and>
   map name (variables (onDuplicated ''foo'' (view [var ''foo'' (Editable Query) 1,
      var ''copy_of_foo'' (Editable Query) 1, var ''copy_of_foo_1'' (Editable Query) 1])))
     = [''foo'', ''copy_of_foo_2'', ''copy_of_foo'', ''copy_of_foo_1''] \<and>
   ''copy_of_foo_2'' \<noteq> ''copy_of_foo_1''"
  by (simp add: onDuplicated_def getVariableIndex_def index_at_def newNameLoop.simps
      string_of_nat_small digit_def
      slice_def slice_from_def clampIndex_def view_def var_def Let_def)

subsection \<open>Failing operations\<close>

text \<open>
  Claim C2. A mutating operation that fails, that is delete, duplicate or beginEdit with
  a name absent from the collection, or reorder with an index outside the collection,
  changes neither the collection nor the edit session: the state after the call is the
  state before it with one more line on the error console, \<^verbatim>\<open>Variable not found\<close> or
  \<^verbatim>\<open>Invalid index\<close>. The call returns normally.
\<close>

theorem failing_operations_change_nothing:
  "(n \<notin> name ` set (variables s) \<longrightarrow>
      onDelete n s = s\<lparr>console := console s @ [''Variable not found'']\<rparr> \<and>
      onDuplicated n s = s\<lparr>console := console s @ [''Variable not found'']\<rparr> \<and>
      onEdit n s = s\<lparr>console := console s @ [''Variable not found'']\<rparr>) \<and>
   (i < 0 \<or> int (length (variables s)) \<le> i \<or> j < 0 \<or> int (length (variables s)) \<le> j \<longrightarrow>
      onOrderChanged i j s = s\<lparr>console := console s @ [''Invalid index'']\<rparr>)"
  by (simp add: onDelete_def onDuplicated_def onEdit_def onOrderChanged_def failing_delete
      console_error_def Let_def)

theorem failing_operations_change_nothing_witness:
  "''nope'' \<notin> name ` set (variables example_view) \<and>
   onDelete ''nope'' example_view = example_view\<lparr>console := [''Variable not found'']\<rparr> \<and>
   onDuplicated ''nope'' example_view = example_view\<lparr>console := [''Variable not found'']\<rparr> \<and>
   onEdit ''nope'' example_view = example_view\<lparr>console := [''Variable not found'']\<rparr> \<and>
   int (length (variables example_view)) \<le> 2 \<and>
   onOrderChanged 0 2 example_view = example_view\<lparr>console := [''Invalid index'']\<rparr>"
  using failing_operations_change_nothing [of "''nope''" example_view 0 2]
  by (simp add: example_view_def view_def var_def)

subsection \<open>Reorder\<close>

text \<open>
  Claim C5. For every collection and indices \<open>i\<close>, \<open>j\<close> inside it, \<open>reorder(i, j)\<close>
  yields the collection with the element at index \<open>i\<close> removed and put back at offset
  \<open>j\<close> of the shortened sequence; the result has the same multiset of variables, and
  \<open>reorder(i, i)\<close> yields the collection unchanged.
\<close>

theorem reorder_in_range:
  assumes "i < length (variables s)" and "j < length (variables s)"
  shows "variables (onOrderChanged (int i) (int j) s) =
           (let rest = take i (variables s) @ drop (Suc i) (variables s)
            in take j rest @ [variables s ! i] @ drop j rest) \<and>
         mset (variables (onOrderChanged (int i) (int j) s)) = mset (variables s) \<and>
         (i = j \<longrightarrow> variables (onOrderChanged (int i) (int j) s) = variables s)"
proof -
  let ?C = "variables s"
  let ?rest = "take i ?C @ drop (Suc i) ?C"
  note v = reorder_variables [OF assms]
  have split: "?C = take i ?C @ [?C ! i] @ drop (Suc i) ?C"
    using assms(1) by (simp add: id_take_nth_drop [symmetric])
  have "mset (take j ?rest @ [?C ! i] @ drop j ?rest) = mset (take j ?rest @ drop j ?rest) + {#?C ! i#}"
    by simp
  also have "\<dots> = mset ?rest + {#?C ! i#}" by (simp only: append_take_drop_id)
  also have "\<dots> = mset (take i ?C @ [?C ! i] @ drop (Suc i) ?C)" by simp
  also have "\<dots> = mset ?C" using split by simp
  finally have m: "mset (variables (onOrderChanged (int i) (int j) s)) = mset ?C"
    by (simp only: v)
  have same: "take i ?rest @ [?C ! i] @ drop i ?rest = ?C"
  proof -
    from assms(1) have l: "length (take i ?C) = i" by simp
    from take_drop_at_length [OF l]
    have "take i ?rest = take i ?C" and "drop i ?rest = drop (Suc i) ?C"
      by blast+
    then have "take i ?rest @ [?C ! i] @ drop i ?rest = take i ?C @ [?C ! i] @ drop (Suc i) ?C"
      by (simp only:)
    with split show ?thesis by (simp only:)
  qed
  have "i = j \<longrightarrow> variables (onOrderChanged (int i) (int j) s) = ?C"
  proof
    assume "i = j"
    with v have "variables (onOrderChanged (int i) (int j) s) = take i ?rest @ [?C ! i] @ drop i ?rest"
      by (simp only:)
    with same show "variables (onOrderChanged (int i) (int j) s) = ?C" by (simp only:)
  qed
  with v m show ?thesis by (simp only: Let_def simp_thms)
qed

theorem reorder_in_range_witness:
  "(0::nat) < length (variables (view [var ''query0'' (Editable Query) 7, var ''copy_of_query0'' (Editable Query) 7, var ''custom1'' (Editable Custom) 8])) \<and>
   (2::nat) < length (variables (view [var ''query0'' (Editable Query) 7, var ''copy_of_query0'' (Editable Query) 7, var ''custom1'' (Editable Custom) 8])) \<and>
   variables (onOrderChanged 0 2 (view [var ''query0'' (Editable Query) 7, var ''copy_of_query0'' (Editable Query) 7, var ''custom1'' (Editable Custom) 8]))
     = [var ''copy_of_query0'' (Editable Query) 7, var ''custom1'' (Editable Custom) 8, var ''query0'' (Editable Query) 7] \<and>
   (1::nat) < length (variables example_view) \<and>
   variables (onOrderChanged 1 1 example_view) = variables example_view"
  using reorder_in_range [of 0 "view [var ''query0'' (Editable Query) 7, var ''copy_of_query0'' (Editable Query) 7, var ''custom1'' (Editable Custom) 8]" 2]
    reorder_in_range [of 1 example_view 1]
  by (simp add: example_view_def view_def)

subsection \<open>Frame: the list operations leave the edit session alone\<close>

text \<open>
  Claim C10. The operations delete, duplicate and reorder never modify the state of the
  edit session: whatever the state and the arguments, \<open>editIndex\<close> and
  \<open>originalVariableState\<close> after the call are what they were before it. In particular
  the stored \<open>editIndex\<close> is neither checked again nor shifted when the positions of the
  variables change.
\<close>

theorem list_operations_keep_session:
  "editIndex (onDelete n s) = editIndex s \<and>
   originalVariableState (onDelete n s) = originalVariableState s \<and>
   editIndex (onDuplicated n s) = editIndex s \<and>
   originalVariableState (onDuplicated n s) = originalVariableState s \<and>
   editIndex (onOrderChanged i j s) = editIndex s \<and>
   originalVariableState (onOrderChanged i j s) = originalVariableState s"
  by (simp add: onDelete_def onDuplicated_def onOrderChanged_def console_error_def Let_def
      split: option.split prod.split)

subsection \<open>Changing the type of the variable under edit\<close>

text \<open>
  Claim C6. While an edit session is active on the variable \<open>v\<close> at \<open>editIndex\<close>,
  \<open>changeType(newType)\<close> with a kind other than the ad-hoc filter kind replaces the
  variable at \<open>editIndex\<close>, every other position staying as it is, by a new variable of
  kind \<open>newType\<close> that has the name and the label of \<open>v\<close> and the default configuration
  of \<open>newType\<close>.
\<close>

theorem change_type_replaces:
  assumes "editIndex s = Some (int i)" and "i < length (variables s)" and "t \<noteq> Adhoc"
  shows "variables (onTypeChange defaults t s) =
           (variables s)[i := \<lparr>name = name (variables s ! i), label = label (variables s ! i),
                                type = Editable t, config = defaults t\<rparr>]"
  using assms
  by (simp add: onTypeChange_def replaceEditVariable_def getVariableScene_def name_and_label_def
      index_at_nat replace_at Let_def)

theorem change_type_replaces_witness:
  "editIndex ((example_view)\<lparr>editIndex := Some 0\<rparr>) = Some (int 0) \<and>
   0 < length (variables ((example_view)\<lparr>editIndex := Some 0\<rparr>)) \<and> Textbox \<noteq> Adhoc \<and>
   variables (onTypeChange example_defaults Textbox ((example_view)\<lparr>editIndex := Some 0\<rparr>)) =
     [var ''query0'' (Editable Textbox) 0, var ''custom1'' (Editable Custom) 8]"
  using change_type_replaces [of "(example_view)\<lparr>editIndex := Some 0\<rparr>" 0 Textbox example_defaults]
  by (simp add: example_view_def view_def var_def example_defaults_def)

text \<open>
  Claim C8. \<open>changeType(newType)\<close> with the ad-hoc filter kind replaces nothing: the
  collection after the call is the collection before it (with an edit session active, and
  without one as well).
\<close>

theorem change_type_adhoc_keeps_collection:
  "variables (onTypeChange defaults Adhoc s) = variables s"
  by (simp add: onTypeChange_def replaceEditVariable_def getVariableScene_def console_error_def
      Let_def split: option.split)

subsection \<open>Discarding an edit\<close>

text \<open>
  Claim C7. For every collection and name \<open>n\<close> present in it whose variable has an
  editable type, \<open>beginEdit(n)\<close> followed at once by \<open>discard()\<close> gives back the
  collection as it was before \<open>beginEdit\<close>.
\<close>

theorem edit_discard_roundtrip:
  assumes "n \<in> name ` set (variables s)"
    and "isEditableVariableType (type (variables s ! nat (getVariableIndex n s)))"
  shows "variables (onDiscardChanges defaults (onEdit n s)) = variables s"
proof -
  note p = getVariableIndex_present [OF assms(1)]
  define i where "i = nat (getVariableIndex n s)"
  from p(2) have gi: "getVariableIndex n s = int i" by (simp add: i_def)
  from p(3) have i: "i < length (variables s)" by (simp add: i_def)
  let ?v = "variables s ! i"
  note at = index_at_nat [OF i]
  have e: "onEdit n s = s\<lparr>editIndex := Some (int i), originalVariableState := Some ?v\<rparr>"
    by (simp add: onEdit_def Let_def gi at)
  from assms(2) obtain t where t: "type ?v = Editable t"
    unfolding i_def [symmetric] by (cases "type ?v") simp_all
  show ?thesis
  proof (cases "t = Adhoc")
    case True
    then show ?thesis
      unfolding e using at t by (simp add: onDiscardChanges_def getVariableScene_def Let_def)
  next
    case False
    have "(variables s)[i := ?v] = variables s" by simp
    then show ?thesis
      unfolding e using at t whole_state_restores [OF False t, of defaults] i
      by (simp add: onDiscardChanges_def Let_def replace_at)
  qed
qed

theorem edit_discard_roundtrip_witness:
  "''custom1'' \<in> name ` set (variables example_view) \<and>
   isEditableVariableType (type (variables example_view ! nat (getVariableIndex ''custom1'' example_view))) \<and>
   variables (onDiscardChanges example_defaults (onEdit ''custom1'' example_view)) =
     [var ''query0'' (Editable Query) 7, var ''custom1'' (Editable Custom) 8]"
  using edit_discard_roundtrip [of "''custom1''" example_view example_defaults]
  by (simp add: example_view_def view_def var_def getVariableIndex_def)

text \<open>
  Claim C9, as the code has it. After \<open>discard()\<close> on an active session, that is with
  \<open>editIndex\<close> and the snapshot both set and \<open>editIndex\<close> denoting a variable of the
  collection, both \<open>editIndex\<close> and the snapshot are unset, whether or not the variable
  was restored. When no session is active (\<open>editIndex\<close> unset) the call changes nothing
  at all: the collection stays, and so does a snapshot left behind by \<open>goBack\<close>.
\<close>

theorem discard_clears_session:
  "(editIndex s = Some (int i) \<and> i < length (variables s) \<and> originalVariableState s = Some st \<longrightarrow>
      editIndex (onDiscardChanges defaults s) = None \<and>
      originalVariableState (onDiscardChanges defaults s) = None) \<and>
   (editIndex s = None \<longrightarrow> onDiscardChanges defaults s = s)"
  by (simp add: onDiscardChanges_def index_at_nat Let_def
      split: VariableType.split SceneObject.split)

theorem discard_clears_session_witness:
  "editIndex (onEdit ''query0'' example_view) = Some (int 0) \<and>
   0 < length (variables (onEdit ''query0'' example_view)) \<and>
   originalVariableState (onEdit ''query0'' example_view) = Some (var ''query0'' (Editable Query) 7) \<and>
   editIndex (onDiscardChanges example_defaults (onEdit ''query0'' example_view)) = None \<and>
   originalVariableState (onDiscardChanges example_defaults (onEdit ''query0'' example_view)) = None \<and>
   editIndex example_view = None \<and>
   onDiscardChanges example_defaults example_view = example_view"
  using discard_clears_session [of "onEdit ''query0'' example_view" 0 "var ''query0'' (Editable Query) 7" example_defaults]
    discard_clears_session [of example_view 0 "var ''query0'' (Editable Query) 7" example_defaults]
  by (simp add: onEdit_def getVariableIndex_def index_at_def example_view_def view_def var_def)

text \<open>
  Stated for every prior state, the clearing fails: \<^verbatim>\<open>onDiscardChanges\<close> returns early
  when \<open>editIndex\<close> is unset, so after \<open>beginEdit\<close> and \<open>goBack\<close> the snapshot survives
  \<open>discard\<close>; it returns early as well when \<open>editIndex\<close> denotes no variable, so after
  \<open>beginEdit\<close> of the last variable and \<open>delete\<close> of it both stay set.
\<close>

theorem discard_counterexample:
  "editIndex (onGoBack (onEdit ''query0'' example_view)) = None \<and>
   originalVariableState (onDiscardChanges example_defaults (onGoBack (onEdit ''query0'' example_view)))
     = Some (var ''query0'' (Editable Query) 7) \<and>
   editIndex (onDiscardChanges example_defaults (onDelete ''custom1'' (onEdit ''custom1'' example_view)))
     = Some 1 \<and>
   originalVariableState (onDiscardChanges example_defaults (onDelete ''custom1'' (onEdit ''custom1'' example_view)))
     = Some (var ''custom1'' (Editable Custom) 8)"
  by (simp add: onDiscardChanges_def onGoBack_def onEdit_def onDelete_def getVariableIndex_def
      index_at_def slice_def slice_from_def clampIndex_def example_view_def view_def var_def Let_def)

end
